theory Spec2Isabelle
  imports Complex_Main "HOL-Library.Signed_Division"
begin

section \<open>Embedding of \<^verbatim>\<open>eml_audio.h\<close>\<close>

text \<open>
  The header works on C \<^verbatim>\<open>int\<close> and \<^verbatim>\<open>float\<close>. The embedding takes \<^verbatim>\<open>int\<close> as
  \<^typ>\<open>int\<close> and \<^verbatim>\<open>float\<close> as \<^typ>\<open>real\<close>: it describes the computation in exact arithmetic,
  without rounding, infinities or NaN, and on integers that do not overflow (signed overflow
  is undefined in C, and would need a vector of \<open>2^31 - 1\<close> floats here). Integer division is
  C's, truncating towards zero (\<open>sdiv\<close>). Where C divides a float by zero or takes the
  logarithm of a number that is not positive, the result is an infinity or a NaN; the model
  has HOL's total functions there instead, and says nothing about the code for such
  parameters (\<open>samplerate = 0\<close>, \<open>fmin \<le> -700\<close>, \<open>fmax \<le> -700\<close>, \<open>n_fft = 0\<close> as a divisor).

  An access outside a vector or through a null pointer is undefined in C; the model makes
  it the result \<open>None\<close>, so that a theorem stating a \<open>Some\<close> result also states that every
  access of that run was inside its vector. Vectors are passed by value: the two vectors of
  a call do not overlap. \<^verbatim>\<open>eml_audio_melspectrogram\<close>, which chains the window, the FFT of
  \<^verbatim>\<open>eml_fft.h\<close> and the two functions below on aliased buffers, is not part of the model.
\<close>

subsection \<open>Collaborators declared in headers outside this file\<close>

text \<open>
  Modelled from the spec: \<^verbatim>\<open>EmlError\<close> of \<^verbatim>\<open>eml_common.h\<close>, the result type with one
  success value and distinguishable failure kinds. Only the codes that this header returns
  are listed: the size mismatch, and \<^verbatim>\<open>EmlUnknownError\<close>, which \<^verbatim>\<open>eml_audio_melspec\<close>
  returns from its range checks (the specification's range error).
  \<^verbatim>\<open>EML_PRECONDITION(cond, code)\<close> of the same header returns \<open>code\<close> at once when \<open>cond\<close> is
  false; it is written as an \<open>if\<close> in the functions below.
\<close>

datatype EmlError = EmlOk | EmlSizeMismatch | EmlUnknownError

text \<open>
  Modelled from the spec: \<^verbatim>\<open>EmlVector\<close> of \<^verbatim>\<open>eml_vector.h\<close>, the bounded view (a
  reference to a contiguous float region plus a length). A view is the list of the floats
  it spans, and its \<^verbatim>\<open>length\<close> field is the length of that list.
\<close>

type_synonym EmlVector = "real list"

definition vec_length :: "EmlVector \<Rightarrow> int" where
  "vec_length v = int (length v)"

text \<open>Reading \<^verbatim>\<open>v.data[i]\<close> and writing \<^verbatim>\<open>v.data[i] = x\<close>.\<close>

definition vec_read :: "EmlVector \<Rightarrow> int \<Rightarrow> real option" where
  "vec_read v i = (if 0 \<le> i \<and> i < vec_length v then Some (v ! nat i) else None)"

definition vec_write :: "EmlVector \<Rightarrow> int \<Rightarrow> real \<Rightarrow> EmlVector option" where
  "vec_write v i x = (if 0 \<le> i \<and> i < vec_length v then Some (v[nat i := x]) else None)"

text \<open>The functions of \<^verbatim>\<open>math.h\<close> that the header calls, in exact arithmetic.\<close>

definition fabs :: "real \<Rightarrow> real" where
  "fabs x = \<bar>x\<bar>"

definition powf :: "real \<Rightarrow> real \<Rightarrow> real" where
  "powf x y = x powr y"

definition log10 :: "real \<Rightarrow> real" where
  "log10 x = log 10 x"

subsection \<open>Power spectrogram\<close>

function power_spectrogram_loop ::
  "EmlVector \<Rightarrow> real \<Rightarrow> int \<Rightarrow> int \<Rightarrow> EmlVector \<Rightarrow> EmlVector option" where
  "power_spectrogram_loop rfft scale spec_length i out =
     (if i < spec_length then
        (case vec_read rfft i of
           None \<Rightarrow> None
         | Some x \<Rightarrow>
             (let a = fabs x in
              case vec_write out i (scale * powf a 2) of
                None \<Rightarrow> None
              | Some out' \<Rightarrow> power_spectrogram_loop rfft scale spec_length (i + 1) out'))
      else Some out)"
  by pat_completeness auto
termination
  by (relation "measure (\<lambda>(rfft, scale, spec_length, i, out). nat (spec_length - i))") auto

declare power_spectrogram_loop.simps [simp del]

text \<open>
  The result pairs the returned code with the contents of \<^verbatim>\<open>out\<close> when the call returns.
\<close>

definition eml_audio_power_spectrogram ::
  "EmlVector \<Rightarrow> EmlVector \<Rightarrow> int \<Rightarrow> (EmlError \<times> EmlVector) option" where
  "eml_audio_power_spectrogram rfft out nfft =
     (let spec_length = 1 + nfft sdiv 2 in
      if \<not> vec_length rfft > spec_length then Some (EmlSizeMismatch, out)
      else if \<not> vec_length out = spec_length then Some (EmlSizeMismatch, out)
      else
        (let scale = 1 / real_of_int nfft in
         case power_spectrogram_loop rfft scale spec_length 0 out of
           None \<Rightarrow> None
         | Some out' \<Rightarrow> Some (EmlOk, out')))"

subsection \<open>Mel scale\<close>

definition eml_audio_mels_from_hz :: "real \<Rightarrow> real" where
  "eml_audio_mels_from_hz hz = 2595 * log10 (1 + hz / 700)"

definition eml_audio_mels_to_hz :: "real \<Rightarrow> real" where
  "eml_audio_mels_to_hz mels = 700 * (powf 10 (mels / 2595) - 1)"

subsection \<open>Mel filterbank\<close>

record EmlAudioMel =
  n_mels :: int
  fmin :: real
  fmax :: real
  n_fft :: int
  samplerate :: int

definition mel_bin :: "EmlAudioMel \<Rightarrow> int \<Rightarrow> int" where
  "mel_bin params n =
     (let melmin = eml_audio_mels_from_hz (fmin params);
          melmax = eml_audio_mels_from_hz (fmax params);
          melstep = (melmax - melmin) / real_of_int (n_mels params + 1);
          mel = melmin + real_of_int n * melstep;
          hz = eml_audio_mels_to_hz mel;
          bin = \<lfloor>real_of_int (n_fft params + 1) * (hz / real_of_int (samplerate params))\<rfloor>
      in bin)"

text \<open>
  The two inner \<^verbatim>\<open>for\<close> statements of \<^verbatim>\<open>eml_audio_melspec\<close>: the rising slope over \<open>[left, center)\<close>
  and the falling slope over \<open>[center, right)\<close>, each adding to the running \<^verbatim>\<open>val\<close>.
\<close>

function melspec_rise :: "EmlVector \<Rightarrow> int \<Rightarrow> int \<Rightarrow> int \<Rightarrow> real \<Rightarrow> real option" where
  "melspec_rise spec left center k val =
     (if k < center then
        (let weight = real_of_int (k - left) / real_of_int (center - left) in
         case vec_read spec k of
           None \<Rightarrow> None
         | Some x \<Rightarrow> melspec_rise spec left center (k + 1) (val + x * weight))
      else Some val)"
  by pat_completeness auto
termination
  by (relation "measure (\<lambda>(spec, left, center, k, val). nat (center - k))") auto

function melspec_fall :: "EmlVector \<Rightarrow> int \<Rightarrow> int \<Rightarrow> int \<Rightarrow> real \<Rightarrow> real option" where
  "melspec_fall spec center right k val =
     (if k < right then
        (let weight = real_of_int (right - k) / real_of_int (right - center) in
         case vec_read spec k of
           None \<Rightarrow> None
         | Some x \<Rightarrow> melspec_fall spec center right (k + 1) (val + x * weight))
      else Some val)"
  by pat_completeness auto
termination
  by (relation "measure (\<lambda>(spec, center, right, k, val). nat (right - k))") auto

text \<open>The loop over the filters \<open>m = 1, \<dots>, n_mels\<close>.\<close>

function melspec_loop ::
  "EmlAudioMel \<Rightarrow> EmlVector \<Rightarrow> int \<Rightarrow> int \<Rightarrow> EmlVector \<Rightarrow> (EmlError \<times> EmlVector) option" where
  "melspec_loop mel spec max_bin m mels =
     (if m < n_mels mel + 1 then
        (let left = mel_bin mel (m - 1);
             center = mel_bin mel m;
             right = mel_bin mel (m + 1)
         in if left < 0 then Some (EmlUnknownError, mels)
            else if right > max_bin then Some (EmlUnknownError, mels)
            else
              (case melspec_rise spec left center left 0 of
                 None \<Rightarrow> None
               | Some val1 \<Rightarrow>
                   (case melspec_fall spec center right center val1 of
                      None \<Rightarrow> None
                    | Some val \<Rightarrow>
                        (case vec_write mels (m - 1) val of
                           None \<Rightarrow> None
                         | Some mels' \<Rightarrow> melspec_loop mel spec max_bin (m + 1) mels'))))
      else Some (EmlOk, mels))"
  by pat_completeness auto
termination
  by (relation "measure (\<lambda>(mel, spec, max_bin, m, mels). nat (n_mels mel + 1 - m))") auto

declare melspec_rise.simps [simp del] melspec_fall.simps [simp del] melspec_loop.simps [simp del]

text \<open>
  The result pairs the returned code with the contents of \<^verbatim>\<open>mels\<close> when the call returns.
\<close>

definition eml_audio_melspec ::
  "EmlAudioMel \<Rightarrow> EmlVector \<Rightarrow> EmlVector \<Rightarrow> (EmlError \<times> EmlVector) option" where
  "eml_audio_melspec mel spec mels =
     (let max_bin = 1 + n_fft mel sdiv 2 in
      if \<not> max_bin \<le> vec_length spec then Some (EmlSizeMismatch, mels)
      else if \<not> n_mels mel = vec_length mels then Some (EmlSizeMismatch, mels)
      else melspec_loop mel spec max_bin 1 mels)"

subsection \<open>Double buffering\<close>

text \<open>
  The bufferer holds four \<^verbatim>\<open>float *\<close>, of which \<^verbatim>\<open>write_buffer\<close> and \<^verbatim>\<open>read_buffer\<close>
  alias \<^verbatim>\<open>buffer1\<close> or \<^verbatim>\<open>buffer2\<close>. A pointer is the address of a float array, or \<open>None\<close>
  for \<^verbatim>\<open>NULL\<close>; the store maps every address to the array allocated there.
\<close>

type_synonym float_ptr = "nat option"

type_synonym heap = "nat \<Rightarrow> real list"

record EmlAudioBufferer =
  buffer_length :: int
  buffer1 :: float_ptr
  buffer2 :: float_ptr
  write_buffer :: float_ptr
  read_buffer :: float_ptr
  write_offset :: int

definition eml_audio_bufferer_reset :: "EmlAudioBufferer \<Rightarrow> EmlAudioBufferer" where
  "eml_audio_bufferer_reset self =
     self\<lparr>write_buffer := buffer1 self, read_buffer := None, write_offset := 0\<rparr>"

text \<open>The store after \<^verbatim>\<open>p[i] = x\<close>.\<close>

definition heap_write :: "heap \<Rightarrow> float_ptr \<Rightarrow> int \<Rightarrow> real \<Rightarrow> heap option" where
  "heap_write h p i x =
     (case p of
        None \<Rightarrow> None
      | Some a \<Rightarrow> (case vec_write (h a) i x of None \<Rightarrow> None | Some v \<Rightarrow> Some (h(a := v))))"

text \<open>
  The result is the returned \<^verbatim>\<open>int\<close> (\<open>0\<close> while filling, \<open>1\<close> when a buffer is ready,
  \<open>-1\<close> on overflow), the bufferer and the store after the call.
\<close>

definition eml_audio_bufferer_add ::
  "EmlAudioBufferer \<Rightarrow> heap \<Rightarrow> real \<Rightarrow> (int \<times> EmlAudioBufferer \<times> heap) option" where
  "eml_audio_bufferer_add self h s =
     (case heap_write h (write_buffer self) (write_offset self) s of
        None \<Rightarrow> None
      | Some h' \<Rightarrow>
          (let self1 = self\<lparr>write_offset := write_offset self + 1\<rparr> in
           if write_offset self1 = buffer_length self1 then
             if read_buffer self1 \<noteq> None then Some (- 1, self1, h')
             else
               (let self2 = self1\<lparr>write_offset := 0\<rparr>;
                    self3 = self2\<lparr>read_buffer := write_buffer self2\<rparr>;
                    self4 = self3\<lparr>write_buffer :=
                              (if read_buffer self3 = buffer1 self3 then buffer2 self3
                               else buffer1 self3)\<rparr>
                in Some (1, self4, h'))
           else Some (0, self1, h')))"

text \<open>
  A producer that calls \<^verbatim>\<open>eml_audio_bufferer_add\<close> once for each sample of a list, in
  order, and collects the returned codes.
\<close>

fun bufferer_add_all ::
  "EmlAudioBufferer \<Rightarrow> heap \<Rightarrow> real list \<Rightarrow> (int list \<times> EmlAudioBufferer \<times> heap) option" where
  "bufferer_add_all self h [] = Some ([], self, h)"
| "bufferer_add_all self h (s # ss) =
     (case eml_audio_bufferer_add self h s of
        None \<Rightarrow> None
      | Some (r, self', h') \<Rightarrow>
          (case bufferer_add_all self' h' ss of
             None \<Rightarrow> None
           | Some (rs, self'', h'') \<Rightarrow> Some (r # rs, self'', h'')))"

subsection \<open>The properties in the words of the specification\<close>

text \<open>
  The specification's triangular filter \<open>m\<close>: with \<open>left = bin(m - 1)\<close>, \<open>center = bin(m)\<close>
  and \<open>right = bin(m + 1)\<close>, the sum over \<open>k\<close> in \<open>[left, center)\<close> of
  \<open>spec[k] * (k - left) / (center - left)\<close> plus the sum over \<open>k\<close> in \<open>[center, right)\<close> of
  \<open>spec[k] * (right - k) / (right - center)\<close>, with no normalisation.
\<close>

definition triangular_filter_sum :: "EmlAudioMel \<Rightarrow> EmlVector \<Rightarrow> int \<Rightarrow> real" where
  "triangular_filter_sum mel spec m =
     (let left = mel_bin mel (m - 1); center = mel_bin mel m; right = mel_bin mel (m + 1)
      in (\<Sum>k = left..<center. spec ! nat k * (real_of_int (k - left) / real_of_int (center - left)))
         + (\<Sum>k = center..<right. spec ! nat k * (real_of_int (right - k) / real_of_int (right - center))))"

text \<open>
  Filter \<open>m\<close> passes the two range checks of the loop body: neither \<open>left < 0\<close> nor
  \<open>right > max_bin\<close>, where \<open>max_bin = 1 + n_fft/2\<close>.
\<close>

definition filter_in_range :: "EmlAudioMel \<Rightarrow> int \<Rightarrow> bool" where
  "filter_in_range mel m \<longleftrightarrow>
     \<not> mel_bin mel (m - 1) < 0 \<and> \<not> mel_bin mel (m + 1) > 1 + n_fft mel sdiv 2"

text \<open>
  A valid configuration: \<open>n_mels > 0\<close>, \<open>0 \<le> fmin < fmax \<le> samplerate/2\<close>, and a transform
  size \<open>n_fft\<close> that is not negative.
\<close>

definition mel_valid :: "EmlAudioMel \<Rightarrow> bool" where
  "mel_valid p \<longleftrightarrow>
     0 < n_mels p \<and> 0 \<le> fmin p \<and> fmin p < fmax p
     \<and> fmax p \<le> real_of_int (samplerate p) / 2 \<and> 0 \<le> n_fft p"

subsection \<open>Concrete inputs\<close>

text \<open>
  Filterbanks whose boundary frequencies are \<open>700 * (2^n - 1)\<close> Hz, so that their bins can
  be computed exactly; all three have \<open>max_bin = 4\<close>. \<open>mel_example\<close> has the bins
  \<open>0, 1, 3\<close>; \<open>mel_narrow\<close> has \<open>fmax\<close> above half the sample rate and the bins
  \<open>0, 2, 7\<close>; \<open>mel_two\<close> has two filters with the bins \<open>0, 1, 3, 8\<close>, of which the
  second reaches above half the sample rate. \<open>mel_sixteen\<close> is
  the configuration of the specification's end-to-end test (\<open>n_fft = 16\<close>, \<open>n_mels = 4\<close>,
  \<open>fmin = 0\<close>, \<open>fmax = samplerate/2\<close>) at 16 kHz.
\<close>

definition mel_example :: EmlAudioMel where
  "mel_example = \<lparr>n_mels = 1, fmin = 0, fmax = 2100, n_fft = 6, samplerate = 4200\<rparr>"

definition mel_narrow :: EmlAudioMel where
  "mel_narrow = \<lparr>n_mels = 1, fmin = 0, fmax = 2100, n_fft = 6, samplerate = 2000\<rparr>"

definition mel_two :: EmlAudioMel where
  "mel_two = \<lparr>n_mels = 2, fmin = 0, fmax = 4900, n_fft = 6, samplerate = 4200\<rparr>"

definition mel_sixteen :: EmlAudioMel where
  "mel_sixteen = \<lparr>n_mels = 4, fmin = 0, fmax = 8000, n_fft = 16, samplerate = 16000\<rparr>"

text \<open>
  The bufferer of the specification's test: two buffers of four zeros. \<open>bufferer_example\<close>
  holds arbitrary roles before \<^verbatim>\<open>reset\<close>; \<open>bufferer_full\<close> and \<open>heap_full\<close> are the state
  after \<^verbatim>\<open>reset\<close> and the samples \<open>1, \<dots>, 7\<close>, with the first frame not cleared by the
  consumer.
\<close>

definition bufferer_example :: EmlAudioBufferer where
  "bufferer_example =
     \<lparr>buffer_length = 4, buffer1 = Some 1, buffer2 = Some 2,
      write_buffer = None, read_buffer = Some 2, write_offset = 3\<rparr>"

definition heap_example :: heap where
  "heap_example = (\<lambda>_. [])(1 := [0, 0, 0, 0], 2 := [0, 0, 0, 0])"

definition bufferer_full :: EmlAudioBufferer where
  "bufferer_full =
     \<lparr>buffer_length = 4, buffer1 = Some 1, buffer2 = Some 2,
      write_buffer = Some 2, read_buffer = Some 1, write_offset = 3\<rparr>"

definition heap_full :: heap where
  "heap_full = (\<lambda>_. [])(1 := [1, 2, 3, 4], 2 := [5, 6, 7, 0])"

section \<open>Properties of the power spectrogram\<close>

lemma power_spectrogram_loop_run:
  assumes "0 \<le> i" "spec_length \<le> vec_length rfft" "spec_length \<le> vec_length out"
  shows "\<exists>out'. power_spectrogram_loop rfft scale spec_length i out = Some out'
           \<and> length out' = length out
           \<and> (\<forall>j. 0 \<le> j \<and> j < vec_length out \<longrightarrow>
                 out' ! nat j =
                   (if i \<le> j \<and> j < spec_length then scale * \<bar>rfft ! nat j\<bar>\<^sup>2 else out ! nat j))"
  using assms
proof (induction rfft scale spec_length i out rule: power_spectrogram_loop.induct)
  case (1 rfft scale spec_length i out)
  show ?case
  proof (cases "i < spec_length")
    case False
    then show ?thesis
      by (simp add: power_spectrogram_loop.simps)
  next
    case True
    define y where "y = scale * powf (fabs (rfft ! nat i)) 2"
    define out1 where "out1 = out[nat i := y]"
    have rd: "vec_read rfft i = Some (rfft ! nat i)"
      using True "1.prems" by (simp add: vec_read_def)
    have wr: "vec_write out i y = Some out1"
      using True "1.prems" by (simp add: vec_write_def out1_def)
    have len1: "vec_length out1 = vec_length out"
      by (simp add: out1_def vec_length_def)
    have "\<exists>out'. power_spectrogram_loop rfft scale spec_length (i + 1) out1 = Some out'
           \<and> length out' = length out1
           \<and> (\<forall>j. 0 \<le> j \<and> j < vec_length out1 \<longrightarrow>
                 out' ! nat j =
                   (if i + 1 \<le> j \<and> j < spec_length then scale * \<bar>rfft ! nat j\<bar>\<^sup>2
                    else out1 ! nat j))"
      using "1.IH" [OF True rd refl wr [unfolded y_def]] "1.prems" len1
      by (simp add: y_def)
    then obtain out' where
      run: "power_spectrogram_loop rfft scale spec_length (i + 1) out1 = Some out'"
      and len: "length out' = length out1"
      and val: "\<And>j. 0 \<le> j \<Longrightarrow> j < vec_length out1 \<Longrightarrow>
                 out' ! nat j =
                   (if i + 1 \<le> j \<and> j < spec_length then scale * \<bar>rfft ! nat j\<bar>\<^sup>2
                    else out1 ! nat j)"
      by blast
    have step: "power_spectrogram_loop rfft scale spec_length i out = Some out'"
      using True rd wr run
      by (subst power_spectrogram_loop.simps) (simp add: y_def)
    have ysq: "y = scale * \<bar>rfft ! nat i\<bar>\<^sup>2"
      by (simp add: y_def powf_def fabs_def)
    have "out' ! nat j =
            (if i \<le> j \<and> j < spec_length then scale * \<bar>rfft ! nat j\<bar>\<^sup>2 else out ! nat j)"
      if j: "0 \<le> j" "j < vec_length out" for j
    proof (cases "j = i")
      case True
      then show ?thesis
        using val [of j] j len1 \<open>i < spec_length\<close> "1.prems" ysq
        by (simp add: out1_def vec_length_def)
    next
      case False
      then have "nat j \<noteq> nat i"
        using j "1.prems" by simp
      then show ?thesis
        using val [of j] j len1 False by (auto simp: out1_def)
    qed
    then show ?thesis
      using step len by (simp add: out1_def)
  qed
qed

lemma power_spectrogram_success:
  assumes "vec_length rfft > 1 + nfft sdiv 2" "vec_length out = 1 + nfft sdiv 2"
  shows "\<exists>out'. eml_audio_power_spectrogram rfft out nfft = Some (EmlOk, out')
           \<and> length out' = length out
           \<and> (\<forall>i. 0 \<le> i \<and> i < 1 + nfft sdiv 2 \<longrightarrow>
                 out' ! nat i = 1 / real_of_int nfft * \<bar>rfft ! nat i\<bar>\<^sup>2)"
proof -
  have "\<exists>out'. power_spectrogram_loop rfft (1 / real_of_int nfft) (1 + nfft sdiv 2) 0 out
                  = Some out'
           \<and> length out' = length out
           \<and> (\<forall>j. 0 \<le> j \<and> j < vec_length out \<longrightarrow>
                 out' ! nat j =
                   (if 0 \<le> j \<and> j < 1 + nfft sdiv 2
                    then 1 / real_of_int nfft * \<bar>rfft ! nat j\<bar>\<^sup>2 else out ! nat j))"
    using assms by (intro power_spectrogram_loop_run) simp_all
  then obtain out' where
    run: "power_spectrogram_loop rfft (1 / real_of_int nfft) (1 + nfft sdiv 2) 0 out = Some out'"
    and len: "length out' = length out"
    and val: "\<And>j. 0 \<le> j \<Longrightarrow> j < 1 + nfft sdiv 2 \<Longrightarrow>
                out' ! nat j = 1 / real_of_int nfft * \<bar>rfft ! nat j\<bar>\<^sup>2"
    using assms(2) by auto
  have "eml_audio_power_spectrogram rfft out nfft = Some (EmlOk, out')"
    using assms run by (simp add: eml_audio_power_spectrogram_def)
  then show ?thesis
    using len val by blast
qed

lemma power_spectrogram_cases:
  "eml_audio_power_spectrogram rfft out nfft = Some (EmlOk, out') \<Longrightarrow>
     vec_length rfft > 1 + nfft sdiv 2 \<and> vec_length out = 1 + nfft sdiv 2"
  by (auto simp: eml_audio_power_spectrogram_def Let_def split: if_splits)

text \<open>
  Claim C2. When \<^verbatim>\<open>rfft\<close> is longer than \<open>spec_length = 1 + n_fft/2\<close> and \<^verbatim>\<open>out\<close> has
  exactly that length, the call returns \<^verbatim>\<open>EmlOk\<close>, every access stays inside its vector,
  and \<open>out[i] = |rfft[i]|\<^sup>2 / n_fft\<close> for every \<open>i\<close> below \<open>spec_length\<close>; for a constant
  input \<open>c\<close> every entry is \<open>c\<^sup>2 / n_fft\<close>. The transform size is taken non-zero: the
  quotient by \<open>0\<close> is an infinity or NaN in C and has no counterpart in the reals.
\<close>

theorem power_spectrogram_values:
  assumes "vec_length rfft > 1 + nfft sdiv 2" "vec_length out = 1 + nfft sdiv 2" "nfft \<noteq> 0"
  shows "\<exists>out'. eml_audio_power_spectrogram rfft out nfft = Some (EmlOk, out')
           \<and> length out' = length out
           \<and> (\<forall>i. 0 \<le> i \<and> i < 1 + nfft sdiv 2 \<longrightarrow>
                 out' ! nat i = \<bar>rfft ! nat i\<bar>\<^sup>2 / real_of_int nfft)
           \<and> (\<forall>c. (\<forall>i. 0 \<le> i \<and> i < 1 + nfft sdiv 2 \<longrightarrow> rfft ! nat i = c) \<longrightarrow>
                 (\<forall>i. 0 \<le> i \<and> i < 1 + nfft sdiv 2 \<longrightarrow>
                    out' ! nat i = c\<^sup>2 / real_of_int nfft))"
proof -
  obtain out' where
    run: "eml_audio_power_spectrogram rfft out nfft = Some (EmlOk, out')"
    and len: "length out' = length out"
    and val: "\<And>i. 0 \<le> i \<Longrightarrow> i < 1 + nfft sdiv 2 \<Longrightarrow>
                out' ! nat i = 1 / real_of_int nfft * \<bar>rfft ! nat i\<bar>\<^sup>2"
    using power_spectrogram_success [OF assms(1,2)] by blast
  have "out' ! nat i = \<bar>rfft ! nat i\<bar>\<^sup>2 / real_of_int nfft"
    if "0 \<le> i" "i < 1 + nfft sdiv 2" for i
    using val [OF that] by simp
  then show ?thesis
    using run len by auto
qed

theorem power_spectrogram_values_witness:
  "vec_length [3, 3, 3] > 1 + 2 sdiv 2 \<and> vec_length [0, 0] = 1 + 2 sdiv 2 \<and> (2::int) \<noteq> 0
   \<and> eml_audio_power_spectrogram [3, 3, 3] [0, 0] 2 = Some (EmlOk, [9 / 2, 9 / 2])"
proof -
  have h1: "vec_length [3, 3, 3] > 1 + 2 sdiv 2"
    and h2: "vec_length [0, 0] = 1 + 2 sdiv 2"
    and h3: "(2::int) \<noteq> 0"
    by (simp_all add: vec_length_def signed_divide_int_def)
  obtain out' where
    run: "eml_audio_power_spectrogram [3, 3, 3] [0, 0] 2 = Some (EmlOk, out')"
    and len: "length out' = length [0, 0 :: real]"
    and val: "\<forall>c. (\<forall>i. 0 \<le> i \<and> i < 1 + 2 sdiv 2 \<longrightarrow> [3, 3, 3] ! nat i = c) \<longrightarrow>
                (\<forall>i. 0 \<le> i \<and> i < 1 + 2 sdiv 2 \<longrightarrow> out' ! nat i = c\<^sup>2 / real_of_int 2)"
    using power_spectrogram_values [OF h1 h2 h3] by blast
  have const: "\<forall>i. 0 \<le> i \<and> i < 1 + 2 sdiv 2 \<longrightarrow> [3, 3, 3 :: real] ! nat i = 3"
    by (auto simp: signed_divide_int_def nth_Cons split: nat.splits)
  have ent: "\<forall>i. 0 \<le> i \<and> i < 1 + 2 sdiv 2 \<longrightarrow> out' ! nat i = 3\<^sup>2 / real_of_int 2"
    using val const by blast
  have "out' ! nat 0 = 9 / 2" "out' ! nat 1 = 9 / 2"
    using ent [rule_format, of 0] ent [rule_format, of 1]
    by (simp_all add: signed_divide_int_def)
  then have "out' = [9 / 2, 9 / 2]"
    using len by (auto simp: list_eq_iff_nth_eq less_Suc_eq)
  then show ?thesis
    using run h1 h2 h3 by simp
qed

text \<open>
  Claim C7. When \<^verbatim>\<open>rfft\<close> is not longer than \<open>spec_length = 1 + n_fft/2\<close>, or the length
  of \<^verbatim>\<open>out\<close> is not \<open>spec_length\<close>, the call returns \<^verbatim>\<open>EmlSizeMismatch\<close> and \<^verbatim>\<open>out\<close>
  is what it was before the call.
\<close>

theorem power_spectrogram_size_mismatch:
  assumes "vec_length rfft \<le> 1 + nfft sdiv 2 \<or> vec_length out \<noteq> 1 + nfft sdiv 2"
  shows "eml_audio_power_spectrogram rfft out nfft = Some (EmlSizeMismatch, out)"
  using assms by (auto simp: eml_audio_power_spectrogram_def Let_def)

theorem power_spectrogram_size_mismatch_witness:
  "vec_length [7, 8, 9] \<noteq> 1 + 2 sdiv 2
   \<and> eml_audio_power_spectrogram [1, 2, 3] [7, 8, 9] 2 = Some (EmlSizeMismatch, [7, 8, 9])"
proof -
  have ne: "vec_length [7, 8, 9] \<noteq> 1 + 2 sdiv 2"
    by (simp add: vec_length_def signed_divide_int_def)
  then have h: "vec_length [1, 2, 3] \<le> 1 + 2 sdiv 2 \<or> vec_length [7, 8, 9] \<noteq> 1 + 2 sdiv 2"
    by simp
  show ?thesis
    using ne power_spectrogram_size_mismatch [OF h] by simp
qed

text \<open>
  Claim C10. When the call returns \<^verbatim>\<open>EmlOk\<close> and \<open>n_fft > 0\<close>, every entry \<open>out[i]\<close>
  with \<open>i\<close> below \<open>1 + n_fft/2\<close> is non-negative.
\<close>

theorem power_spectrogram_nonneg:
  assumes "eml_audio_power_spectrogram rfft out nfft = Some (EmlOk, out')" "0 < nfft"
  shows "\<forall>i. 0 \<le> i \<and> i < 1 + nfft sdiv 2 \<longrightarrow> 0 \<le> out' ! nat i"
proof -
  have sz: "vec_length rfft > 1 + nfft sdiv 2" "vec_length out = 1 + nfft sdiv 2"
    using power_spectrogram_cases [OF assms(1)] by simp_all
  obtain out'' where
    run: "eml_audio_power_spectrogram rfft out nfft = Some (EmlOk, out'')"
    and val: "\<And>i. 0 \<le> i \<Longrightarrow> i < 1 + nfft sdiv 2 \<Longrightarrow>
                out'' ! nat i = 1 / real_of_int nfft * \<bar>rfft ! nat i\<bar>\<^sup>2"
    using power_spectrogram_success [OF sz] by blast
  have same: "out'' = out'"
    using run assms(1) by simp
  have "0 \<le> out' ! nat i" if "0 \<le> i" "i < 1 + nfft sdiv 2" for i
    using val [OF that] assms(2) by (simp add: same)
  then show ?thesis
    by blast
qed

lemma power_spectrogram_example:
  "eml_audio_power_spectrogram [1, -2, 3] [0, 0] 2 = Some (EmlOk, [1 / 2, 2])"
  by (simp add: eml_audio_power_spectrogram_def vec_length_def signed_divide_int_def
      power_spectrogram_loop.simps vec_read_def vec_write_def fabs_def powf_def)

theorem power_spectrogram_nonneg_witness:
  "eml_audio_power_spectrogram [1, -2, 3] [0, 0] 2 = Some (EmlOk, [1 / 2, 2]) \<and> (0::int) < 2
   \<and> (0::real) \<le> [1 / 2, 2] ! nat 0 \<and> (0::real) \<le> [1 / 2, 2] ! nat 1"
proof -
  have h: "(0::int) < 2"
    by simp
  have "\<forall>i. 0 \<le> i \<and> i < 1 + 2 sdiv 2 \<longrightarrow> (0::real) \<le> [1 / 2, 2] ! nat i"
    using power_spectrogram_nonneg [OF power_spectrogram_example h] .
  then have "(0::real) \<le> [1 / 2, 2] ! nat 0 \<and> (0::real) \<le> [1 / 2, 2] ! nat 1"
    by (simp add: signed_divide_int_def)
  then show ?thesis
    using power_spectrogram_example h by simp
qed

section \<open>Properties of the mel scale\<close>

lemma mels_roundtrip_gen:
  assumes "- 700 < hz"
  shows "eml_audio_mels_to_hz (eml_audio_mels_from_hz hz) = hz"
proof -
  have pos: "0 < 1 + hz / 700"
    using assms by simp
  have "powf 10 (eml_audio_mels_from_hz hz / 2595) = 10 powr (log 10 (1 + hz / 700))"
    by (simp add: powf_def eml_audio_mels_from_hz_def log10_def)
  also have "\<dots> = 1 + hz / 700"
    using pos by simp
  finally show ?thesis
    by (simp add: eml_audio_mels_to_hz_def)
qed

lemma mels_to_hz_mono: "x \<le> y \<Longrightarrow> eml_audio_mels_to_hz x \<le> eml_audio_mels_to_hz y"
  by (simp add: eml_audio_mels_to_hz_def powf_def)

lemma mels_from_hz_mono:
  "- 700 < x \<Longrightarrow> x \<le> y \<Longrightarrow> eml_audio_mels_from_hz x \<le> eml_audio_mels_from_hz y"
  by (simp add: eml_audio_mels_from_hz_def log10_def)

text \<open>
  Claim C8. For every \<open>hz\<close> in \<open>[0, samplerate/2]\<close>, converting to mels and back gives
  \<open>hz\<close> again, where \<open>hz_to_mel(hz) = 2595 * log10(1 + hz/700)\<close> and
  \<open>mel_to_hz(mel) = 700 * (10^(mel/2595) - 1)\<close>: in exact real arithmetic the round trip is
  the identity. (The rounding of the C floats is outside this model.)
\<close>

theorem mel_scale_roundtrip:
  assumes "0 \<le> hz" "hz \<le> real_of_int sr / 2"
  shows "eml_audio_mels_to_hz (eml_audio_mels_from_hz hz) = hz
       \<and> eml_audio_mels_from_hz hz = 2595 * log 10 (1 + hz / 700)
       \<and> eml_audio_mels_to_hz mel = 700 * (10 powr (mel / 2595) - 1)"
  using assms mels_roundtrip_gen [of hz]
  by (simp add: eml_audio_mels_from_hz_def eml_audio_mels_to_hz_def log10_def powf_def)

theorem mel_scale_roundtrip_witness:
  "(0::real) \<le> 700 \<and> (700::real) \<le> real_of_int 16000 / 2
   \<and> eml_audio_mels_to_hz (eml_audio_mels_from_hz 700) = 700"
proof -
  have h1: "(0::real) \<le> 700" and h2: "(700::real) \<le> real_of_int 16000 / 2"
    by simp_all
  show ?thesis
    using h1 h2 mel_scale_roundtrip [OF h1 h2] by blast
qed

section \<open>Properties of the filter boundaries\<close>

lemma mel_bin_unfold:
  "mel_bin p n =
     \<lfloor>real_of_int (n_fft p + 1)
        * (eml_audio_mels_to_hz
             (eml_audio_mels_from_hz (fmin p)
              + real_of_int n
                * ((eml_audio_mels_from_hz (fmax p) - eml_audio_mels_from_hz (fmin p))
                   / real_of_int (n_mels p + 1)))
           / real_of_int (samplerate p))\<rfloor>"
  by (simp add: mel_bin_def Let_def)

lemma mel_bin_mono:
  assumes "mel_valid p" "i \<le> j"
  shows "mel_bin p i \<le> mel_bin p j"
proof -
  define melmin where "melmin = eml_audio_mels_from_hz (fmin p)"
  define melmax where "melmax = eml_audio_mels_from_hz (fmax p)"
  define melstep where "melstep = (melmax - melmin) / real_of_int (n_mels p + 1)"
  have "melmin \<le> melmax"
    using assms(1) unfolding melmin_def melmax_def mel_valid_def
    by (intro mels_from_hz_mono) auto
  then have step: "0 \<le> melstep"
    using assms(1) by (simp add: melstep_def mel_valid_def)
  have "real_of_int i * melstep \<le> real_of_int j * melstep"
    using assms(2) step by (intro mult_right_mono) simp_all
  then have hz: "eml_audio_mels_to_hz (melmin + real_of_int i * melstep)
                  \<le> eml_audio_mels_to_hz (melmin + real_of_int j * melstep)"
    by (intro mels_to_hz_mono) simp
  have sr: "0 < real_of_int (samplerate p)" and nf: "0 \<le> real_of_int (n_fft p + 1)"
    using assms(1) by (auto simp: mel_valid_def)
  have "real_of_int (n_fft p + 1)
          * (eml_audio_mels_to_hz (melmin + real_of_int i * melstep) / real_of_int (samplerate p))
        \<le> real_of_int (n_fft p + 1)
          * (eml_audio_mels_to_hz (melmin + real_of_int j * melstep) / real_of_int (samplerate p))"
    using hz sr nf by (intro mult_left_mono divide_right_mono) simp_all
  then show ?thesis
    unfolding mel_bin_def Let_def melmin_def melmax_def melstep_def
    by (rule floor_mono)
qed

text \<open>
  Whatever the parameters, the boundary bins are monotone in the index, one way or the
  other; so the centre of a filter always lies between its left and right bins.
\<close>

lemma floor_scaled_monotone_or_antitone:
  fixes f :: "int \<Rightarrow> real" and A B :: real
  assumes "(\<forall>i j. i \<le> j \<longrightarrow> f i \<le> f j) \<or> (\<forall>i j. i \<le> j \<longrightarrow> f j \<le> f i)"
  shows "(\<forall>i j. i \<le> j \<longrightarrow> \<lfloor>A * (f i / B)\<rfloor> \<le> \<lfloor>A * (f j / B)\<rfloor>)
       \<or> (\<forall>i j. i \<le> j \<longrightarrow> \<lfloor>A * (f j / B)\<rfloor> \<le> \<lfloor>A * (f i / B)\<rfloor>)"
proof -
  have eq: "A * (x / B) = (A / B) * x" for x
    by simp
  show ?thesis
  proof (cases "0 \<le> A / B")
    case True
    then have "x \<le> y \<Longrightarrow> \<lfloor>A * (x / B)\<rfloor> \<le> \<lfloor>A * (y / B)\<rfloor>" for x y
      unfolding eq by (intro floor_mono mult_left_mono)
    then show ?thesis
      using assms by blast
  next
    case False
    then have "x \<le> y \<Longrightarrow> \<lfloor>A * (y / B)\<rfloor> \<le> \<lfloor>A * (x / B)\<rfloor>" for x y
      unfolding eq by (intro floor_mono mult_left_mono_neg) simp_all
    then show ?thesis
      using assms by blast
  qed
qed

lemma mel_hz_monotone_or_antitone:
  fixes a s :: real
  shows "(\<forall>i j::int. i \<le> j \<longrightarrow>
            eml_audio_mels_to_hz (a + real_of_int i * s) \<le> eml_audio_mels_to_hz (a + real_of_int j * s))
       \<or> (\<forall>i j::int. i \<le> j \<longrightarrow>
            eml_audio_mels_to_hz (a + real_of_int j * s) \<le> eml_audio_mels_to_hz (a + real_of_int i * s))"
proof (cases "0 \<le> s")
  case True
  have "eml_audio_mels_to_hz (a + real_of_int i * s) \<le> eml_audio_mels_to_hz (a + real_of_int j * s)"
    if "i \<le> j" for i j :: int
    using that True by (intro mels_to_hz_mono add_left_mono mult_right_mono) simp_all
  then show ?thesis
    by blast
next
  case False
  have "eml_audio_mels_to_hz (a + real_of_int j * s) \<le> eml_audio_mels_to_hz (a + real_of_int i * s)"
    if "i \<le> j" for i j :: int
    using that False by (intro mels_to_hz_mono add_left_mono mult_right_mono_neg) simp_all
  then show ?thesis
    by blast
qed

lemma mel_bin_monotone_or_antitone:
  "(\<forall>i j. i \<le> j \<longrightarrow> mel_bin p i \<le> mel_bin p j)
   \<or> (\<forall>i j. i \<le> j \<longrightarrow> mel_bin p j \<le> mel_bin p i)"
  unfolding mel_bin_unfold
  by (rule floor_scaled_monotone_or_antitone) (rule mel_hz_monotone_or_antitone)

lemma mel_bin_center_between:
  "(mel_bin p (m - 1) \<le> mel_bin p m \<and> mel_bin p m \<le> mel_bin p (m + 1))
   \<or> (mel_bin p (m + 1) \<le> mel_bin p m \<and> mel_bin p m \<le> mel_bin p (m - 1))"
  using mel_bin_monotone_or_antitone [of p]
  by (metis add_increasing2 diff_add_cancel zero_le_one order_refl)

text \<open>
  The bins of a filterbank that starts at \<open>fmin = 0\<close> and whose boundaries are geometric
  in \<open>1 + hz/700\<close>.
\<close>

lemma mel_bin_geometric:
  assumes "fmin p = 0" "0 < b" "1 + fmax p / 700 = b ^ N" "n_mels p + 1 = int N" "0 < N"
  shows "mel_bin p (int n)
           = \<lfloor>real_of_int (n_fft p + 1) * (700 * (b ^ n - 1) / real_of_int (samplerate p))\<rfloor>"
proof -
  note N = assms(5)
  have lo: "eml_audio_mels_from_hz (fmin p) = 0"
    by (simp add: assms(1) eml_audio_mels_from_hz_def log10_def)
  have hi: "eml_audio_mels_from_hz (fmax p) = 2595 * (real N * log 10 b)"
    using assms(2) by (simp add: eml_audio_mels_from_hz_def log10_def assms(3) log_nat_power)
  have step: "(eml_audio_mels_from_hz (fmax p) - eml_audio_mels_from_hz (fmin p))
                / real_of_int (n_mels p + 1) = 2595 * log 10 b"
    using N by (simp add: lo hi assms(4))
  have "powf 10 ((real n * (2595 * log 10 b)) / 2595) = 10 powr (log 10 b * real n)"
    by (simp add: powf_def mult.commute)
  also have "\<dots> = (10 powr log 10 b) powr real n"
    by (simp only: powr_powr)
  also have "\<dots> = b ^ n"
    using assms(2) by (simp add: powr_realpow)
  finally have hz: "eml_audio_mels_to_hz (real n * (2595 * log 10 b)) = 700 * (b ^ n - 1)"
    by (simp add: eml_audio_mels_to_hz_def)
  have arg: "eml_audio_mels_from_hz (fmin p)
               + real_of_int (int n)
                 * ((eml_audio_mels_from_hz (fmax p) - eml_audio_mels_from_hz (fmin p))
                    / real_of_int (n_mels p + 1))
             = real n * (2595 * log 10 b)"
    unfolding step by (simp add: lo)
  show ?thesis
    unfolding mel_bin_unfold arg hz ..
qed

lemma mel_example_bins:
  "mel_bin mel_example 0 = 0" "mel_bin mel_example 1 = 1" "mel_bin mel_example 2 = 3"
proof -
  have g: "mel_bin mel_example (int n)
             = \<lfloor>real_of_int (6 + 1) * (700 * (2 ^ n - 1) / real_of_int 4200)\<rfloor>" for n
    using mel_bin_geometric [of mel_example 2 2 n] by (simp add: mel_example_def)
  show "mel_bin mel_example 0 = 0" "mel_bin mel_example 1 = 1" "mel_bin mel_example 2 = 3"
    using g [of 0] g [of 1] g [of 2] by simp_all
qed

lemma mel_narrow_bins:
  "mel_bin mel_narrow 0 = 0" "mel_bin mel_narrow 1 = 2" "mel_bin mel_narrow 2 = 7"
proof -
  have g: "mel_bin mel_narrow (int n)
             = \<lfloor>real_of_int (6 + 1) * (700 * (2 ^ n - 1) / real_of_int 2000)\<rfloor>" for n
    using mel_bin_geometric [of mel_narrow 2 2 n] by (simp add: mel_narrow_def)
  show "mel_bin mel_narrow 0 = 0" "mel_bin mel_narrow 1 = 2" "mel_bin mel_narrow 2 = 7"
    using g [of 0] g [of 1] g [of 2] by simp_all
qed

lemma mel_two_bins:
  "mel_bin mel_two 0 = 0" "mel_bin mel_two 1 = 1" "mel_bin mel_two 2 = 3" "mel_bin mel_two 3 = 8"
proof -
  have g: "mel_bin mel_two (int n)
             = \<lfloor>real_of_int (6 + 1) * (700 * (2 ^ n - 1) / real_of_int 4200)\<rfloor>" for n
    using mel_bin_geometric [of mel_two 2 3 n] by (simp add: mel_two_def)
  show "mel_bin mel_two 0 = 0" "mel_bin mel_two 1 = 1" "mel_bin mel_two 2 = 3"
    "mel_bin mel_two 3 = 8"
    using g [of 0] g [of 1] g [of 2] g [of 3] by simp_all
qed

lemma mel_sixteen_bins: "mel_bin mel_sixteen 0 = 0" "mel_bin mel_sixteen 1 = 0"
proof -
  define b :: real where "b = (87 / 7) powr (1 / 5)"
  have b1: "1 \<le> b"
    unfolding b_def by (rule ge_one_powr_ge_zero) simp_all
  have "b ^ 5 = b powr real 5"
    using b1 by (subst powr_realpow) simp_all
  also have "\<dots> = 87 / 7"
    by (simp add: b_def powr_powr)
  finally have b5: "b ^ 5 = 87 / 7" .
  have b2: "b < 2"
  proof (rule ccontr)
    assume "\<not> b < 2"
    then have "2 ^ 5 \<le> b ^ 5"
      by (intro power_mono) simp_all
    then show False
      by (simp add: b5)
  qed
  have g: "mel_bin mel_sixteen (int n)
             = \<lfloor>real_of_int (16 + 1) * (700 * (b ^ n - 1) / real_of_int 16000)\<rfloor>" for n
    using mel_bin_geometric [of mel_sixteen b 5 n] b1 b5 by (simp add: mel_sixteen_def)
  show "mel_bin mel_sixteen 0 = 0"
    using g [of 0] by simp
  have "0 \<le> real_of_int (16 + 1) * (700 * (b ^ 1 - 1) / real_of_int 16000)"
    and "real_of_int (16 + 1) * (700 * (b ^ 1 - 1) / real_of_int 16000) < 1"
    using b1 b2 by simp_all
  then have "\<lfloor>real_of_int (16 + 1) * (700 * (b ^ 1 - 1) / real_of_int 16000)\<rfloor> = 0"
    by (simp only: floor_eq_iff) simp
  then show "mel_bin mel_sixteen 1 = 0"
    using g [of 1] by simp
qed

text \<open>
  Claim C9, as amended. For every valid configuration (\<open>n_mels > 0\<close>,
  \<open>0 \<le> fmin < fmax \<le> samplerate/2\<close>, \<open>n_fft \<ge> 0\<close>), every filter \<open>m\<close> in \<open>1..n_mels\<close> has
  \<open>left(m) \<le> center(m) \<le> right(m)\<close>, and the boundary sequence
  \<open>bin(0), bin(1), \<dots>, bin(n_mels + 1)\<close> is non-decreasing. It need not be strictly
  increasing: \<open>floor\<close> maps neighbouring boundary frequencies to the same bin when the
  transform is short.
\<close>

theorem mel_bin_boundaries_ordered:
  assumes "mel_valid p"
  shows "(\<forall>m. 1 \<le> m \<and> m \<le> n_mels p \<longrightarrow>
            mel_bin p (m - 1) \<le> mel_bin p m \<and> mel_bin p m \<le> mel_bin p (m + 1))
       \<and> (\<forall>i j. 0 \<le> i \<and> i \<le> j \<and> j \<le> n_mels p + 1 \<longrightarrow> mel_bin p i \<le> mel_bin p j)"
  using mel_bin_mono [OF assms] by simp

theorem mel_bin_boundaries_ordered_witness:
  "mel_valid mel_example
   \<and> mel_bin mel_example (1 - 1) \<le> mel_bin mel_example 1
   \<and> mel_bin mel_example 1 \<le> mel_bin mel_example (1 + 1)"
proof -
  have h: "mel_valid mel_example"
    by (simp add: mel_valid_def mel_example_def)
  have "1 \<le> (1::int) \<and> 1 \<le> n_mels mel_example"
    by (simp add: mel_example_def)
  then show ?thesis
    using h mel_bin_boundaries_ordered [OF h] by blast
qed

text \<open>
  The claim as stated asks for a strictly increasing sequence. In the configuration of the
  specification's own end-to-end test the first two boundaries are both bin \<open>0\<close>.
\<close>

theorem mel_bin_strict_counterexample:
  "0 < n_mels mel_sixteen \<and> 0 \<le> fmin mel_sixteen \<and> fmin mel_sixteen < fmax mel_sixteen
   \<and> fmax mel_sixteen \<le> real_of_int (samplerate mel_sixteen) / 2
   \<and> \<not> mel_bin mel_sixteen 0 < mel_bin mel_sixteen 1"
  by (simp add: mel_sixteen_bins) (simp add: mel_sixteen_def)

section \<open>Properties of the mel filterbank\<close>

lemma sum_int_from:
  fixes f :: "int \<Rightarrow> real"
  assumes "k < c"
  shows "sum f {k..<c} = f k + sum f {k + 1..<c}"
proof -
  have "{k..<c} = insert k {k + 1..<c}"
    using assms by auto
  then show ?thesis
    by simp
qed

lemma melspec_rise_run:
  assumes "k < center \<longrightarrow> 0 \<le> k \<and> center \<le> vec_length spec"
  shows "melspec_rise spec left center k val
           = Some (val + (\<Sum>j = k..<center.
                spec ! nat j * (real_of_int (j - left) / real_of_int (center - left))))"
  using assms
proof (induction spec left center k val rule: melspec_rise.induct)
  case (1 spec left center k val)
  show ?case
  proof (cases "k < center")
    case False
    then show ?thesis
      by (subst melspec_rise.simps) simp
  next
    case True
    have rd: "vec_read spec k = Some (spec ! nat k)"
      using True "1.prems" by (simp add: vec_read_def)
    have "melspec_rise spec left center (k + 1)
            (val + spec ! nat k * (real_of_int (k - left) / real_of_int (center - left)))
          = Some (val + spec ! nat k * (real_of_int (k - left) / real_of_int (center - left))
              + (\<Sum>j = k + 1..<center.
                  spec ! nat j * (real_of_int (j - left) / real_of_int (center - left))))"
      using "1.prems" True by (intro "1.IH" [OF True refl rd]) simp
    then show ?thesis
      using True rd
      by (subst melspec_rise.simps) (simp add: sum_int_from [OF True] add.assoc)
  qed
qed

lemma melspec_fall_run:
  assumes "k < right \<longrightarrow> 0 \<le> k \<and> right \<le> vec_length spec"
  shows "melspec_fall spec center right k val
           = Some (val + (\<Sum>j = k..<right.
                spec ! nat j * (real_of_int (right - j) / real_of_int (right - center))))"
  using assms
proof (induction spec center right k val rule: melspec_fall.induct)
  case (1 spec center right k val)
  show ?case
  proof (cases "k < right")
    case False
    then show ?thesis
      by (subst melspec_fall.simps) simp
  next
    case True
    have rd: "vec_read spec k = Some (spec ! nat k)"
      using True "1.prems" by (simp add: vec_read_def)
    have "melspec_fall spec center right (k + 1)
            (val + spec ! nat k * (real_of_int (right - k) / real_of_int (right - center)))
          = Some (val + spec ! nat k * (real_of_int (right - k) / real_of_int (right - center))
              + (\<Sum>j = k + 1..<right.
                  spec ! nat j * (real_of_int (right - j) / real_of_int (right - center))))"
      using "1.prems" True by (intro "1.IH" [OF True refl rd]) simp
    then show ?thesis
      using True rd
      by (subst melspec_fall.simps) (simp add: sum_int_from [OF True] add.assoc)
  qed
qed

lemma melspec_filter_run:
  assumes "0 \<le> mel_bin mel (m - 1)" "mel_bin mel (m + 1) \<le> max_bin" "max_bin \<le> vec_length spec"
  shows "\<exists>val1. melspec_rise spec (mel_bin mel (m - 1)) (mel_bin mel m) (mel_bin mel (m - 1)) 0
                  = Some val1
           \<and> melspec_fall spec (mel_bin mel m) (mel_bin mel (m + 1)) (mel_bin mel m) val1
                  = Some (triangular_filter_sum mel spec m)"
proof -
  have rise: "mel_bin mel (m - 1) < mel_bin mel m \<longrightarrow>
                0 \<le> mel_bin mel (m - 1) \<and> mel_bin mel m \<le> vec_length spec"
    using assms mel_bin_center_between [of mel m] by linarith
  have fall: "mel_bin mel m < mel_bin mel (m + 1) \<longrightarrow>
                0 \<le> mel_bin mel m \<and> mel_bin mel (m + 1) \<le> vec_length spec"
    using assms mel_bin_center_between [of mel m] by linarith
  show ?thesis
    by (simp add: melspec_rise_run [OF rise] melspec_fall_run [OF fall]
        triangular_filter_sum_def Let_def)
qed

text \<open>
  Every \<^verbatim>\<open>spec.data[k]\<close> that the formula of a filter mentions lies inside \<^verbatim>\<open>spec\<close> when the
  filter passes the range checks.
\<close>

lemma triangular_filter_sum_reads_inside:
  assumes "filter_in_range mel m" "1 + n_fft mel sdiv 2 \<le> vec_length spec"
    and "mel_bin mel (m - 1) \<le> k \<and> k < mel_bin mel m
         \<or> mel_bin mel m \<le> k \<and> k < mel_bin mel (m + 1)"
  shows "0 \<le> k \<and> k < vec_length spec"
  using assms mel_bin_center_between [of mel m] unfolding filter_in_range_def by linarith

text \<open>
  The loop from filter \<open>m\<close> on, where \<open>f\<close> is the first filter from \<open>m\<close> that fails a range
  check (\<open>f = n_mels + 1\<close> when none does): the filters \<open>m, \<dots>, f - 1\<close> are written, the
  other entries of \<^verbatim>\<open>mels\<close> are left as they were.
\<close>

lemma melspec_loop_run:
  assumes "1 \<le> m" "m \<le> f" "f \<le> n_mels mel + 1"
    and "max_bin = 1 + n_fft mel sdiv 2"
    and "max_bin \<le> vec_length spec" "n_mels mel = vec_length mels"
    and "\<forall>j. m \<le> j \<and> j < f \<longrightarrow> filter_in_range mel j"
    and "f \<le> n_mels mel \<longrightarrow> \<not> filter_in_range mel f"
  shows "\<exists>mels'. melspec_loop mel spec max_bin m mels
                   = Some (if f \<le> n_mels mel then EmlUnknownError else EmlOk, mels')
           \<and> length mels' = length mels
           \<and> (\<forall>j. 1 \<le> j \<and> j \<le> n_mels mel \<longrightarrow>
                 mels' ! nat (j - 1) =
                   (if m \<le> j \<and> j < f then triangular_filter_sum mel spec j
                    else mels ! nat (j - 1)))"
  using assms
proof (induction mel spec max_bin m mels rule: melspec_loop.induct)
  case (1 mel spec max_bin m mels)
  show ?case
  proof (cases "m < f")
    case False
    then have mf: "m = f"
      using "1.prems" by simp
    show ?thesis
    proof (cases "f \<le> n_mels mel")
      case True
      then have "\<not> filter_in_range mel m"
        using "1.prems" mf by simp
      then have "mel_bin mel (m - 1) < 0 \<or> mel_bin mel (m + 1) > max_bin"
        using "1.prems" by (auto simp: filter_in_range_def)
      then have "melspec_loop mel spec max_bin m mels = Some (EmlUnknownError, mels)"
        using True mf by (subst melspec_loop.simps) (auto simp: Let_def)
      then show ?thesis
        using True mf by simp
    next
      case False
      then have "melspec_loop mel spec max_bin m mels = Some (EmlOk, mels)"
        using mf by (subst melspec_loop.simps) simp
      then show ?thesis
        using False mf by simp
    qed
  next
    case True
    then have cont: "m < n_mels mel + 1"
      using "1.prems" by simp
    have "filter_in_range mel m"
      using True "1.prems" by simp
    then have lo: "\<not> mel_bin mel (m - 1) < 0" and hi: "\<not> mel_bin mel (m + 1) > max_bin"
      using "1.prems" by (auto simp: filter_in_range_def)
    obtain val1 where
      rise: "melspec_rise spec (mel_bin mel (m - 1)) (mel_bin mel m) (mel_bin mel (m - 1)) 0
               = Some val1"
      and fall: "melspec_fall spec (mel_bin mel m) (mel_bin mel (m + 1)) (mel_bin mel m) val1
               = Some (triangular_filter_sum mel spec m)"
      using melspec_filter_run [of mel m max_bin spec] lo hi "1.prems" by auto
    define mels1 where "mels1 = mels[nat (m - 1) := triangular_filter_sum mel spec m]"
    have wr: "vec_write mels (m - 1) (triangular_filter_sum mel spec m) = Some mels1"
      using cont "1.prems" by (simp add: vec_write_def mels1_def)
    have len1: "vec_length mels1 = vec_length mels"
      by (simp add: mels1_def vec_length_def)
    have "\<exists>mels'. melspec_loop mel spec max_bin (m + 1) mels1
                   = Some (if f \<le> n_mels mel then EmlUnknownError else EmlOk, mels')
           \<and> length mels' = length mels1
           \<and> (\<forall>j. 1 \<le> j \<and> j \<le> n_mels mel \<longrightarrow>
                 mels' ! nat (j - 1) =
                   (if m + 1 \<le> j \<and> j < f then triangular_filter_sum mel spec j
                    else mels1 ! nat (j - 1)))"
      using "1.prems" True len1
      by (intro "1.IH" [OF cont refl refl refl lo hi rise fall wr]) simp_all
    then obtain mels' where
      run: "melspec_loop mel spec max_bin (m + 1) mels1
              = Some (if f \<le> n_mels mel then EmlUnknownError else EmlOk, mels')"
      and len: "length mels' = length mels1"
      and val: "\<And>j. 1 \<le> j \<Longrightarrow> j \<le> n_mels mel \<Longrightarrow>
                 mels' ! nat (j - 1) =
                   (if m + 1 \<le> j \<and> j < f then triangular_filter_sum mel spec j
                    else mels1 ! nat (j - 1))"
      by blast
    have step: "melspec_loop mel spec max_bin m mels
                  = Some (if f \<le> n_mels mel then EmlUnknownError else EmlOk, mels')"
      using cont lo hi rise fall wr run
      by (subst melspec_loop.simps) (simp add: Let_def)
    have "mels' ! nat (j - 1) =
            (if m \<le> j \<and> j < f then triangular_filter_sum mel spec j else mels ! nat (j - 1))"
      if j: "1 \<le> j" "j \<le> n_mels mel" for j
    proof (cases "j = m")
      case True
      then show ?thesis
        using val [OF j] j \<open>m < f\<close> "1.prems"(6)
        by (simp add: mels1_def vec_length_def)
    next
      case False
      then have "nat (j - 1) \<noteq> nat (m - 1)"
        using j "1.prems"(1) by simp
      then show ?thesis
        using val [OF j] False by (auto simp: mels1_def)
    qed
    then show ?thesis
      using step len by (simp add: mels1_def)
  qed
qed

lemma melspec_run:
  assumes "1 + n_fft mel sdiv 2 \<le> vec_length spec" "n_mels mel = vec_length mels"
    and "1 \<le> f" "f \<le> n_mels mel + 1"
    and "\<forall>j. 1 \<le> j \<and> j < f \<longrightarrow> filter_in_range mel j"
    and "f \<le> n_mels mel \<longrightarrow> \<not> filter_in_range mel f"
  shows "\<exists>mels'. eml_audio_melspec mel spec mels
                   = Some (if f \<le> n_mels mel then EmlUnknownError else EmlOk, mels')
           \<and> length mels' = length mels
           \<and> (\<forall>j. 1 \<le> j \<and> j \<le> n_mels mel \<longrightarrow>
                 mels' ! nat (j - 1) =
                   (if j < f then triangular_filter_sum mel spec j else mels ! nat (j - 1)))"
proof -
  have "\<exists>mels'. melspec_loop mel spec (1 + n_fft mel sdiv 2) 1 mels
                   = Some (if f \<le> n_mels mel then EmlUnknownError else EmlOk, mels')
           \<and> length mels' = length mels
           \<and> (\<forall>j. 1 \<le> j \<and> j \<le> n_mels mel \<longrightarrow>
                 mels' ! nat (j - 1) =
                   (if 1 \<le> j \<and> j < f then triangular_filter_sum mel spec j
                    else mels ! nat (j - 1)))"
    using assms by (intro melspec_loop_run) simp_all
  moreover have "eml_audio_melspec mel spec mels
                   = melspec_loop mel spec (1 + n_fft mel sdiv 2) 1 mels"
    using assms(1,2) by (simp add: eml_audio_melspec_def)
  ultimately show ?thesis
    by auto
qed

lemma first_filter_out_of_range:
  assumes "1 \<le> m" "m \<le> n_mels mel" "\<not> filter_in_range mel m"
  shows "\<exists>f. 1 \<le> f \<and> f \<le> m \<and> \<not> filter_in_range mel f
           \<and> (\<forall>j. 1 \<le> j \<and> j < f \<longrightarrow> filter_in_range mel j)"
proof -
  define P where "P j \<longleftrightarrow> 1 \<le> j \<and> \<not> filter_in_range mel j" for j
  have "P m"
    using assms by (simp add: P_def)
  then obtain f where f: "P f" "\<And>j. P j \<Longrightarrow> nat f \<le> nat j"
    using ex_has_least_nat [of P m nat] by blast
  have "f \<le> m"
    using f(2) [OF \<open>P m\<close>] f(1) assms(1) by (simp add: P_def)
  moreover have "filter_in_range mel j" if "1 \<le> j" "j < f" for j
  proof (rule ccontr)
    assume "\<not> filter_in_range mel j"
    then have "nat f \<le> nat j"
      using f(2) [of j] that by (simp add: P_def)
    then show False
      using that by simp
  qed
  ultimately show ?thesis
    using f(1) by (auto simp: P_def)
qed

lemma mel_example_filter: "triangular_filter_sum mel_example [4, 6, 8, 9] 1 = 10"
  by (simp add: triangular_filter_sum_def mel_example_bins sum_int_from)

lemma mel_two_filter: "triangular_filter_sum mel_two [4, 6, 8, 9] 1 = 10"
  by (simp add: triangular_filter_sum_def mel_two_bins sum_int_from)

lemma mel_narrow_filter: "triangular_filter_sum mel_narrow [0, 0, 8, 0, 0, 0, 0] 1 = 8"
  by (simp add: triangular_filter_sum_def mel_narrow_bins sum_int_from)

text \<open>
  Claim C1, as amended. For every \<^verbatim>\<open>EmlAudioMel\<close> and vectors with
  \<open>spec.length \<ge> 1 + n_fft/2\<close> and \<open>mels.length = n_mels\<close>, when no filter fails a range check
  (so that the call returns \<^verbatim>\<open>EmlOk\<close>), the call sets, for each filter \<open>m\<close> in \<open>1..n_mels\<close> with
  \<open>left = bin(m - 1)\<close>, \<open>center = bin(m)\<close>, \<open>right = bin(m + 1)\<close>,
  \<open>mels[m - 1]\<close> to the sum over \<open>k\<close> in \<open>[left, center)\<close> of
  \<open>spec[k] * (k - left) / (center - left)\<close> plus the sum over \<open>k\<close> in \<open>[center, right)\<close> of
  \<open>spec[k] * (right - k) / (right - center)\<close>, without normalisation.
\<close>

theorem melspec_values:
  assumes "1 + n_fft mel sdiv 2 \<le> vec_length spec" "n_mels mel = vec_length mels"
    and "\<forall>m. 1 \<le> m \<and> m \<le> n_mels mel \<longrightarrow> filter_in_range mel m"
  shows "\<exists>mels'. eml_audio_melspec mel spec mels = Some (EmlOk, mels')
           \<and> length mels' = length mels
           \<and> (\<forall>m. 1 \<le> m \<and> m \<le> n_mels mel \<longrightarrow>
                 mels' ! nat (m - 1) = triangular_filter_sum mel spec m)"
proof -
  have "1 \<le> n_mels mel + 1"
    using assms(2) by (simp add: vec_length_def)
  moreover have "\<forall>j. 1 \<le> j \<and> j < n_mels mel + 1 \<longrightarrow> filter_in_range mel j"
    using assms(3) by simp
  ultimately have "\<exists>mels'. eml_audio_melspec mel spec mels
                   = Some (if n_mels mel + 1 \<le> n_mels mel then EmlUnknownError else EmlOk, mels')
           \<and> length mels' = length mels
           \<and> (\<forall>j. 1 \<le> j \<and> j \<le> n_mels mel \<longrightarrow>
                 mels' ! nat (j - 1) =
                   (if j < n_mels mel + 1 then triangular_filter_sum mel spec j
                    else mels ! nat (j - 1)))"
    using assms(1,2) by (intro melspec_run) simp_all
  then show ?thesis
    by auto
qed

theorem melspec_values_witness:
  "1 + n_fft mel_example sdiv 2 \<le> vec_length [4, 6, 8, 9]
   \<and> n_mels mel_example = vec_length [0]
   \<and> filter_in_range mel_example 1
   \<and> eml_audio_melspec mel_example [4, 6, 8, 9] [0] = Some (EmlOk, [10])"
proof -
  have h1: "1 + n_fft mel_example sdiv 2 \<le> vec_length [4, 6, 8, 9]"
    and h2: "n_mels mel_example = vec_length [0]"
    by (simp_all add: mel_example_def vec_length_def signed_divide_int_def)
  have one: "m = 1" if "1 \<le> m \<and> m \<le> n_mels mel_example" for m
    using that by (simp add: mel_example_def)
  have first: "filter_in_range mel_example 1"
    by (simp add: filter_in_range_def mel_example_bins)
       (simp add: mel_example_def signed_divide_int_def)
  then have h3: "\<forall>m. 1 \<le> m \<and> m \<le> n_mels mel_example \<longrightarrow> filter_in_range mel_example m"
    using one by blast
  obtain mels' where
    run: "eml_audio_melspec mel_example [4, 6, 8, 9] [0] = Some (EmlOk, mels')"
    and len: "length mels' = length [0 :: real]"
    and val: "\<forall>m. 1 \<le> m \<and> m \<le> n_mels mel_example \<longrightarrow>
                mels' ! nat (m - 1) = triangular_filter_sum mel_example [4, 6, 8, 9] m"
    using melspec_values [OF h1 h2 h3] by blast
  have "n_mels mel_example = 1"
    by (simp add: mel_example_def)
  then have "mels' ! 0 = 10"
    using val [rule_format, of 1] by (simp add: mel_example_filter)
  then have "mels' = [10]"
    using len by (auto simp: list_eq_iff_nth_eq)
  then show ?thesis
    using run h1 h2 first by simp
qed

text \<open>
  The claim as stated holds for every parameter set meeting the size preconditions. With
  \<open>fmax\<close> above half the sample rate the sizes are right, filter \<open>1\<close> has \<open>right = 7 > 4\<close>, the
  call returns the error and \<open>mels[0]\<close> keeps its \<open>0\<close>, while the formula gives \<open>8\<close>.
\<close>

theorem melspec_values_counterexample:
  "1 + n_fft mel_narrow sdiv 2 \<le> vec_length [0, 0, 8, 0, 0, 0, 0]
   \<and> n_mels mel_narrow = vec_length [0]
   \<and> eml_audio_melspec mel_narrow [0, 0, 8, 0, 0, 0, 0] [0] = Some (EmlUnknownError, [0])
   \<and> [0] ! nat (1 - 1) \<noteq> triangular_filter_sum mel_narrow [0, 0, 8, 0, 0, 0, 0] 1"
proof -
  have "eml_audio_melspec mel_narrow [0, 0, 8, 0, 0, 0, 0] [0]
          = melspec_loop mel_narrow [0, 0, 8, 0, 0, 0, 0] 4 1 [0]"
    by (simp add: eml_audio_melspec_def mel_narrow_def vec_length_def signed_divide_int_def)
  also have "\<dots> = Some (EmlUnknownError, [0])"
    by (subst melspec_loop.simps) (simp add: mel_narrow_bins, simp add: mel_narrow_def)
  finally show ?thesis
    by (simp add: mel_narrow_filter) (simp add: mel_narrow_def vec_length_def signed_divide_int_def)
qed

text \<open>
  Claim C5. For every \<^verbatim>\<open>EmlAudioMel\<close> and vectors meeting the size preconditions, the call
  returns the range error (the code \<^verbatim>\<open>EmlUnknownError\<close>, the only one the loop returns)
  exactly when some filter \<open>m\<close> in \<open>1..n_mels\<close> has \<open>left < 0\<close> or \<open>right > max_bin\<close>, where
  \<open>max_bin = 1 + n_fft/2\<close>; otherwise it returns \<^verbatim>\<open>EmlOk\<close>.
\<close>

theorem melspec_range_error_iff:
  assumes "1 + n_fft mel sdiv 2 \<le> vec_length spec" "n_mels mel = vec_length mels"
  shows "\<exists>code mels'. eml_audio_melspec mel spec mels = Some (code, mels')
           \<and> (code = EmlUnknownError \<longleftrightarrow>
                (\<exists>m. 1 \<le> m \<and> m \<le> n_mels mel
                   \<and> (mel_bin mel (m - 1) < 0 \<or> mel_bin mel (m + 1) > 1 + n_fft mel sdiv 2)))
           \<and> (code = EmlOk \<longleftrightarrow>
                \<not> (\<exists>m. 1 \<le> m \<and> m \<le> n_mels mel
                   \<and> (mel_bin mel (m - 1) < 0 \<or> mel_bin mel (m + 1) > 1 + n_fft mel sdiv 2)))"
proof (cases "\<exists>m. 1 \<le> m \<and> m \<le> n_mels mel \<and> \<not> filter_in_range mel m")
  case True
  then obtain f where f: "1 \<le> f" "f \<le> n_mels mel" "\<not> filter_in_range mel f"
    "\<forall>j. 1 \<le> j \<and> j < f \<longrightarrow> filter_in_range mel j"
    using first_filter_out_of_range [of _ mel] by (meson order_trans)
  obtain mels' where "eml_audio_melspec mel spec mels = Some (EmlUnknownError, mels')"
    using melspec_run [OF assms f(1)] f by auto
  then show ?thesis
    using True by (auto simp: filter_in_range_def)
next
  case False
  then have "\<forall>j. 1 \<le> j \<and> j < n_mels mel + 1 \<longrightarrow> filter_in_range mel j"
    by auto
  moreover have "1 \<le> n_mels mel + 1"
    using assms(2) by (simp add: vec_length_def)
  ultimately obtain mels' where "eml_audio_melspec mel spec mels = Some (EmlOk, mels')"
    using melspec_run [OF assms, of "n_mels mel + 1"] by auto
  then show ?thesis
    using False by (auto simp: filter_in_range_def)
qed

theorem melspec_range_error_iff_witness:
  "1 + n_fft mel_narrow sdiv 2 \<le> vec_length [0, 0, 8, 0, 0, 0, 0]
   \<and> n_mels mel_narrow = vec_length [0]
   \<and> (\<exists>mels'. eml_audio_melspec mel_narrow [0, 0, 8, 0, 0, 0, 0] [0] = Some (EmlUnknownError, mels'))"
proof -
  have h1: "1 + n_fft mel_narrow sdiv 2 \<le> vec_length [0, 0, 8, 0, 0, 0, 0]"
    and h2: "n_mels mel_narrow = vec_length [0]"
    by (simp_all add: mel_narrow_def vec_length_def signed_divide_int_def)
  have bad: "\<exists>m. 1 \<le> m \<and> m \<le> n_mels mel_narrow
               \<and> (mel_bin mel_narrow (m - 1) < 0
                  \<or> mel_bin mel_narrow (m + 1) > 1 + n_fft mel_narrow sdiv 2)"
    by (rule exI [of _ 1]) (simp add: mel_narrow_bins, simp add: mel_narrow_def signed_divide_int_def)
  show ?thesis
    using melspec_range_error_iff [OF h1 h2] bad h1 h2 by auto
qed

text \<open>
  Claim C6. When the call fails with the range error at filter \<open>m\<close> (the first filter that
  fails a range check), the entries \<open>mels[0..m - 2]\<close> of the earlier filters \<open>1..m - 1\<close> hold
  their computed values, and the entries of filter \<open>m\<close> and of the later filters are what
  they were before the call: the call returns at once.
\<close>

theorem melspec_range_error_keeps_earlier:
  assumes "1 + n_fft mel sdiv 2 \<le> vec_length spec" "n_mels mel = vec_length mels"
    and "1 \<le> m" "m \<le> n_mels mel"
    and "\<not> filter_in_range mel m"
    and "\<forall>j. 1 \<le> j \<and> j < m \<longrightarrow> filter_in_range mel j"
  shows "\<exists>mels'. eml_audio_melspec mel spec mels = Some (EmlUnknownError, mels')
           \<and> length mels' = length mels
           \<and> (\<forall>j. 1 \<le> j \<and> j < m \<longrightarrow> mels' ! nat (j - 1) = triangular_filter_sum mel spec j)
           \<and> (\<forall>j. m \<le> j \<and> j \<le> n_mels mel \<longrightarrow> mels' ! nat (j - 1) = mels ! nat (j - 1))"
proof -
  have "\<exists>mels'. eml_audio_melspec mel spec mels
                   = Some (if m \<le> n_mels mel then EmlUnknownError else EmlOk, mels')
           \<and> length mels' = length mels
           \<and> (\<forall>j. 1 \<le> j \<and> j \<le> n_mels mel \<longrightarrow>
                 mels' ! nat (j - 1) =
                   (if j < m then triangular_filter_sum mel spec j else mels ! nat (j - 1)))"
    using assms by (intro melspec_run) simp_all
  then obtain mels' where
    run: "eml_audio_melspec mel spec mels = Some (EmlUnknownError, mels')"
    and len: "length mels' = length mels"
    and val: "\<And>j. 1 \<le> j \<Longrightarrow> j \<le> n_mels mel \<Longrightarrow>
                mels' ! nat (j - 1) =
                  (if j < m then triangular_filter_sum mel spec j else mels ! nat (j - 1))"
    using assms(4) by auto
  have "mels' ! nat (j - 1) = triangular_filter_sum mel spec j" if "1 \<le> j" "j < m" for j
    using val [of j] that assms(4) by simp
  moreover have "mels' ! nat (j - 1) = mels ! nat (j - 1)" if "m \<le> j" "j \<le> n_mels mel" for j
    using val [of j] that assms(3) by simp
  ultimately show ?thesis
    using run len by blast
qed

theorem melspec_range_error_keeps_earlier_witness:
  "1 + n_fft mel_two sdiv 2 \<le> vec_length [4, 6, 8, 9]
   \<and> n_mels mel_two = vec_length [0, 5]
   \<and> (1::int) \<le> 2 \<and> 2 \<le> n_mels mel_two
   \<and> \<not> filter_in_range mel_two 2
   \<and> filter_in_range mel_two 1
   \<and> eml_audio_melspec mel_two [4, 6, 8, 9] [0, 5] = Some (EmlUnknownError, [10, 5])"
proof -
  have h1: "1 + n_fft mel_two sdiv 2 \<le> vec_length [4, 6, 8, 9]"
    and h2: "n_mels mel_two = vec_length [0, 5]"
    and h3: "(1::int) \<le> 2" and h4: "2 \<le> n_mels mel_two"
    by (simp_all add: mel_two_def vec_length_def signed_divide_int_def)
  have h5: "\<not> filter_in_range mel_two 2"
    by (simp add: filter_in_range_def mel_two_bins)
       (simp add: mel_two_def signed_divide_int_def)
  have one: "j = 1" if "1 \<le> j \<and> j < 2" for j :: int
    using that by simp
  have first: "filter_in_range mel_two 1"
    by (simp add: filter_in_range_def mel_two_bins)
       (simp add: mel_two_def signed_divide_int_def)
  then have h6: "\<forall>j. 1 \<le> j \<and> j < 2 \<longrightarrow> filter_in_range mel_two j"
    using one by blast
  obtain mels' where
    run: "eml_audio_melspec mel_two [4, 6, 8, 9] [0, 5] = Some (EmlUnknownError, mels')"
    and len: "length mels' = length [0, 5 :: real]"
    and early: "\<forall>j. 1 \<le> j \<and> j < 2 \<longrightarrow>
                  mels' ! nat (j - 1) = triangular_filter_sum mel_two [4, 6, 8, 9] j"
    and late: "\<forall>j. 2 \<le> j \<and> j \<le> n_mels mel_two \<longrightarrow>
                 mels' ! nat (j - 1) = [0, 5] ! nat (j - 1)"
    using melspec_range_error_keeps_earlier [OF h1 h2 h3 h4 h5 h6] by blast
  have "mels' ! 0 = 10"
    using early [rule_format, of 1] by (simp add: mel_two_filter)
  moreover have "mels' ! 1 = 5"
    using late [rule_format, of 2] h4 by simp
  ultimately have "mels' = [10, 5]"
    using len by (auto simp: list_eq_iff_nth_eq less_Suc_eq)
  then show ?thesis
    using run h1 h2 h3 h4 h5 first by simp
qed

section \<open>Properties of the bufferer\<close>

lemma heap_write_inside:
  assumes "0 \<le> i" "i < int (length (h a))"
  shows "heap_write h (Some a) i x = Some (h(a := (h a)[nat i := x]))"
  using assms by (simp add: heap_write_def vec_write_def vec_length_def)

lemma heap_write_outside:
  assumes "int (length (h a)) \<le> i"
  shows "heap_write h (Some a) i x = None"
  using assms by (simp add: heap_write_def vec_write_def vec_length_def)

lemma bufferer_add_filling:
  assumes "write_buffer self = Some a" "0 \<le> write_offset self"
    and "write_offset self < int (length (h a))"
    and "write_offset self + 1 \<noteq> buffer_length self"
  shows "eml_audio_bufferer_add self h s
           = Some (0, self\<lparr>write_offset := write_offset self + 1\<rparr>,
                   h(a := (h a)[nat (write_offset self) := s]))"
  using assms by (simp add: eml_audio_bufferer_add_def heap_write_inside)

lemma bufferer_add_ready:
  assumes "write_buffer self = Some a" "0 \<le> write_offset self"
    and "write_offset self < int (length (h a))"
    and "write_offset self + 1 = buffer_length self" "read_buffer self = None"
  shows "eml_audio_bufferer_add self h s
           = Some (1, self\<lparr>write_offset := 0, read_buffer := Some a,
                         write_buffer := (if Some a = buffer1 self then buffer2 self
                                          else buffer1 self)\<rparr>,
                   h(a := (h a)[nat (write_offset self) := s]))"
  using assms by (simp add: eml_audio_bufferer_add_def heap_write_inside)

lemma bufferer_add_overflow:
  assumes "write_buffer self = Some a" "0 \<le> write_offset self"
    and "write_offset self < int (length (h a))"
    and "write_offset self + 1 = buffer_length self" "read_buffer self \<noteq> None"
  shows "eml_audio_bufferer_add self h s
           = Some (- 1, self\<lparr>write_offset := buffer_length self\<rparr>,
                   h(a := (h a)[nat (write_offset self) := s]))"
  using assms by (auto simp: eml_audio_bufferer_add_def heap_write_inside)

text \<open>
  Filling the rest of a frame: from any offset, with no frame waiting, the samples that
  complete the frame return \<open>0\<close> each and \<open>1\<close> at the last one.
\<close>

lemma bufferer_add_all_frame:
  assumes "write_buffer self = Some a" "read_buffer self = None" "0 \<le> write_offset self"
    and "write_offset self + int (length ss) = buffer_length self" "ss \<noteq> []"
    and "buffer_length self \<le> int (length (h a))"
  shows "bufferer_add_all self h ss
           = Some (replicate (length ss - 1) 0 @ [1],
                   self\<lparr>write_offset := 0, read_buffer := Some a,
                        write_buffer := (if Some a = buffer1 self then buffer2 self
                                         else buffer1 self)\<rparr>,
                   h(a := take (nat (write_offset self)) (h a) @ ss
                          @ drop (nat (buffer_length self)) (h a)))"
  using assms
proof (induction ss arbitrary: self h)
  case Nil
  then show ?case by simp
next
  case (Cons s ss)
  define off where "off = nat (write_offset self)"
  have off: "write_offset self = int off"
    using Cons.prems by (simp add: off_def)
  have inside: "off < length (h a)"
    using Cons.prems off by simp
  show ?case
  proof (cases "ss = []")
    case True
    then have full: "write_offset self + 1 = buffer_length self"
      using Cons.prems by simp
    have add: "eml_audio_bufferer_add self h s
            = Some (1, self\<lparr>write_offset := 0, read_buffer := Some a,
                         write_buffer := (if Some a = buffer1 self then buffer2 self
                                          else buffer1 self)\<rparr>,
                    h(a := (h a)[nat (write_offset self) := s]))"
      using bufferer_add_ready [of self a h s] Cons.prems full inside
      by (simp add: off_def)
    have upd: "(h a)[nat (write_offset self) := s]
                 = take (nat (write_offset self)) (h a) @ [s]
                   @ drop (nat (buffer_length self)) (h a)"
      using inside full off by (simp add: upd_conv_take_nth_drop nat_add_distrib flip: full)
    have "bufferer_add_all self h [s]
            = Some ([1], self\<lparr>write_offset := 0, read_buffer := Some a,
                         write_buffer := (if Some a = buffer1 self then buffer2 self
                                          else buffer1 self)\<rparr>,
                    h(a := take (nat (write_offset self)) (h a) @ [s]
                          @ drop (nat (buffer_length self)) (h a)))"
      by (simp add: add upd)
    then have "bufferer_add_all self h (s # [])
            = Some (replicate (length (s # []) - 1) 0 @ [1],
                   self\<lparr>write_offset := 0, read_buffer := Some a,
                         write_buffer := (if Some a = buffer1 self then buffer2 self
                                          else buffer1 self)\<rparr>,
                    h(a := take (nat (write_offset self)) (h a) @ (s # [])
                          @ drop (nat (buffer_length self)) (h a)))"
      by simp
    then show ?thesis
      unfolding True .
  next
    case False
    then have notfull: "write_offset self + 1 \<noteq> buffer_length self"
      using Cons.prems by (cases ss) auto
    define h1 where "h1 = h(a := (h a)[off := s])"
    define self1 where "self1 = self\<lparr>write_offset := write_offset self + 1\<rparr>"
    have step: "eml_audio_bufferer_add self h s = Some (0, self1, h1)"
      using bufferer_add_filling [of self a h s] Cons.prems notfull inside
      by (simp add: h1_def off_def self1_def)
    have rest: "bufferer_add_all self1 h1 ss
           = Some (replicate (length ss - 1) 0 @ [1],
                   self1\<lparr>write_offset := 0, read_buffer := Some a,
                        write_buffer := (if Some a = buffer1 self1 then buffer2 self1
                                         else buffer1 self1)\<rparr>,
                   h1(a := take (nat (write_offset self1)) (h1 a) @ ss
                          @ drop (nat (buffer_length self1)) (h1 a)))"
      using Cons.prems False by (intro Cons.IH) (simp_all add: self1_def h1_def)
    have bl: "off < nat (buffer_length self)"
      using Cons.prems off by simp
    have "take (nat (write_offset self1)) (h1 a) = take off (h a) @ [s]"
      using inside off by (simp add: self1_def h1_def nat_add_distrib take_Suc_conv_app_nth)
    moreover have "drop (nat (buffer_length self1)) (h1 a) = drop (nat (buffer_length self)) (h a)"
      using bl by (simp add: self1_def h1_def)
    moreover have "replicate (length (s # ss) - 1) (0::int) @ [1]
                     = 0 # replicate (length ss - 1) 0 @ [1]"
      using False by (cases ss) simp_all
    moreover have "self1\<lparr>write_offset := 0, read_buffer := Some a,
                        write_buffer := (if Some a = buffer1 self1 then buffer2 self1
                                         else buffer1 self1)\<rparr>
                   = self\<lparr>write_offset := 0, read_buffer := Some a,
                        write_buffer := (if Some a = buffer1 self then buffer2 self
                                         else buffer1 self)\<rparr>"
      by (simp add: self1_def)
    moreover have "h1(a := (take off (h a) @ [s]) @ ss @ drop (nat (buffer_length self)) (h a))
                   = h(a := take (nat (write_offset self)) (h a) @ (s # ss)
                          @ drop (nat (buffer_length self)) (h a))"
      by (simp add: h1_def off_def)
    ultimately show ?thesis
      using step rest by (simp only: bufferer_add_all.simps option.case prod.case)
  qed
qed

text \<open>
  The test of the specification: four samples fill the first buffer (\<open>0, 0, 0, 1\<close>);
  four more, with the first frame not cleared, end in \<open>-1\<close>.
\<close>

lemma bufferer_overflow_example:
  "\<exists>self' h'. bufferer_add_all (eml_audio_bufferer_reset bufferer_example) heap_example
                  [1, 2, 3, 4, 5, 6, 7, 8]
                = Some ([0, 0, 0, 1, 0, 0, 0, - 1], self', h')
     \<and> read_buffer self' = Some 1 \<and> h' 1 = [1, 2, 3, 4]
     \<and> write_buffer self' = Some 2 \<and> h' 2 = [5, 6, 7, 8] \<and> write_offset self' = 4"
  by (simp add: bufferer_example_def heap_example_def eml_audio_bufferer_reset_def
      eml_audio_bufferer_add_def heap_write_def vec_write_def vec_length_def)

text \<open>
  Claim C3. For every bufferer with \<open>buffer_length > 0\<close> whose first buffer holds at least
  \<open>buffer_length\<close> floats, right after \<^verbatim>\<open>reset\<close> the first \<open>buffer_length - 1\<close> calls of \<^verbatim>\<open>add\<close>
  return \<open>0\<close> (filling), the next returns \<open>1\<close> (ready), and then \<^verbatim>\<open>read_buffer\<close> holds the
  \<open>buffer_length\<close> samples in the order they were added.
\<close>

theorem bufferer_fills_then_ready:
  assumes "0 < buffer_length self" "buffer1 self = Some a"
    and "buffer_length self \<le> int (length (h a))"
    and "int (length ss) = buffer_length self"
  shows "\<exists>self' h'. bufferer_add_all (eml_audio_bufferer_reset self) h ss
                      = Some (replicate (length ss - 1) 0 @ [1], self', h')
           \<and> read_buffer self' = Some a
           \<and> take (length ss) (h' a) = ss"
proof -
  define self0 where "self0 = eml_audio_bufferer_reset self"
  have "bufferer_add_all self0 h ss
           = Some (replicate (length ss - 1) 0 @ [1],
                   self0\<lparr>write_offset := 0, read_buffer := Some a,
                        write_buffer := (if Some a = buffer1 self0 then buffer2 self0
                                         else buffer1 self0)\<rparr>,
                   h(a := take (nat (write_offset self0)) (h a) @ ss
                          @ drop (nat (buffer_length self0)) (h a)))"
    using assms by (intro bufferer_add_all_frame) (auto simp: self0_def eml_audio_bufferer_reset_def)
  then show ?thesis
    by (simp add: self0_def eml_audio_bufferer_reset_def)
qed

theorem bufferer_fills_then_ready_witness:
  "0 < buffer_length bufferer_example \<and> buffer1 bufferer_example = Some 1
   \<and> buffer_length bufferer_example \<le> int (length (heap_example 1))
   \<and> int (length [1, 2, 3, 4 :: real]) = buffer_length bufferer_example
   \<and> (\<exists>self' h'. bufferer_add_all (eml_audio_bufferer_reset bufferer_example) heap_example
                      [1, 2, 3, 4]
                    = Some ([0, 0, 0, 1], self', h')
          \<and> read_buffer self' = Some 1
          \<and> take (length [1, 2, 3, 4 :: real]) (h' 1) = [1, 2, 3, 4])"
proof -
  have h1: "0 < buffer_length bufferer_example"
    and h2: "buffer1 bufferer_example = Some 1"
    and h3: "buffer_length bufferer_example \<le> int (length (heap_example 1))"
    and h4: "int (length [1, 2, 3, 4 :: real]) = buffer_length bufferer_example"
    by (simp_all add: bufferer_example_def heap_example_def)
  have codes: "replicate (length [1, 2, 3, 4 :: real] - 1) 0 @ [1] = [0, 0, 0, 1 :: int]"
    by (simp add: eval_nat_numeral)
  obtain self' h' where
    run: "bufferer_add_all (eml_audio_bufferer_reset bufferer_example) heap_example [1, 2, 3, 4]
            = Some (replicate (length [1, 2, 3, 4 :: real] - 1) 0 @ [1], self', h')"
    and rb: "read_buffer self' = Some 1"
    and tk: "take (length [1, 2, 3, 4 :: real]) (h' 1) = [1, 2, 3, 4]"
    using bufferer_fills_then_ready
        [of bufferer_example 1 heap_example "[1, 2, 3, 4]", OF h1 h2 h3 h4]
    by blast
  have "bufferer_add_all (eml_audio_bufferer_reset bufferer_example) heap_example [1, 2, 3, 4]
          = Some ([0, 0, 0, 1], self', h')"
    using run by (simp only: codes)
  then show ?thesis
    using h1 h2 h3 h4 rb tk by blast
qed

text \<open>
  Claim C4. When \<^verbatim>\<open>write_offset\<close> reaches \<open>buffer_length\<close> in a call of \<^verbatim>\<open>add\<close>: if
  \<^verbatim>\<open>read_buffer\<close> is not empty the call returns \<open>-1\<close> (overflow), leaves \<^verbatim>\<open>write_offset\<close> at
  \<open>buffer_length\<close> and leaves \<^verbatim>\<open>write_buffer\<close> and \<^verbatim>\<open>read_buffer\<close> as they were, so that the
  next \<^verbatim>\<open>add\<close> stores at index \<open>buffer_length\<close>, one past the frame (outside the array when it
  has \<open>buffer_length\<close> floats); only if \<^verbatim>\<open>read_buffer\<close> is empty does the call make the filled
  buffer the \<^verbatim>\<open>read_buffer\<close>, switch \<^verbatim>\<open>write_buffer\<close> to the other buffer, reset
  \<^verbatim>\<open>write_offset\<close> to \<open>0\<close> and return \<open>1\<close> (ready).
\<close>

theorem bufferer_add_frame_end:
  assumes "write_buffer self = Some a"
    and "0 \<le> write_offset self" "write_offset self < int (length (h a))"
    and "write_offset self + 1 = buffer_length self"
  shows "eml_audio_bufferer_add self h s =
           Some (if read_buffer self \<noteq> None
                 then (- 1, self\<lparr>write_offset := buffer_length self\<rparr>,
                       h(a := (h a)[nat (write_offset self) := s]))
                 else (1, self\<lparr>write_offset := 0, read_buffer := write_buffer self,
                             write_buffer := (if write_buffer self = buffer1 self
                                              then buffer2 self else buffer1 self)\<rparr>,
                       h(a := (h a)[nat (write_offset self) := s])))
       \<and> (read_buffer self \<noteq> None \<and> int (length (h a)) = buffer_length self \<longrightarrow>
            eml_audio_bufferer_add (self\<lparr>write_offset := buffer_length self\<rparr>)
              (h(a := (h a)[nat (write_offset self) := s])) s' = None)
       \<and> (read_buffer self \<noteq> None \<and> buffer_length self < int (length (h a)) \<longrightarrow>
            eml_audio_bufferer_add (self\<lparr>write_offset := buffer_length self\<rparr>)
              (h(a := (h a)[nat (write_offset self) := s])) s'
            = Some (0, self\<lparr>write_offset := buffer_length self + 1\<rparr>,
                    h(a := (h a)[nat (write_offset self) := s, nat (buffer_length self) := s'])))
       \<and> (read_buffer self = None \<and> buffer1 self \<noteq> buffer2 self
            \<and> (write_buffer self = buffer1 self \<or> write_buffer self = buffer2 self) \<longrightarrow>
            (if write_buffer self = buffer1 self then buffer2 self else buffer1 self)
              \<noteq> write_buffer self)"
proof -
  define h1 where "h1 = h(a := (h a)[nat (write_offset self) := s])"
  have first: "eml_audio_bufferer_add self h s =
           Some (if read_buffer self \<noteq> None
                 then (- 1, self\<lparr>write_offset := buffer_length self\<rparr>, h1)
                 else (1, self\<lparr>write_offset := 0, read_buffer := write_buffer self,
                             write_buffer := (if write_buffer self = buffer1 self
                                              then buffer2 self else buffer1 self)\<rparr>, h1))"
  proof (cases "read_buffer self = None")
    case True
    then show ?thesis
      using bufferer_add_ready [of self a h s] assms by (simp add: h1_def)
  next
    case False
    then show ?thesis
      using bufferer_add_overflow [of self a h s] assms by (simp add: h1_def)
  qed
  define self1 where "self1 = self\<lparr>write_offset := buffer_length self\<rparr>"
  have len1: "length (h1 a) = length (h a)"
    by (simp add: h1_def)
  have past: "eml_audio_bufferer_add self1 h1 s' = None"
    if "int (length (h a)) = buffer_length self"
    using that assms(1) len1
    by (simp add: eml_audio_bufferer_add_def self1_def heap_write_outside)
  have more: "eml_audio_bufferer_add self1 h1 s'
                = Some (0, self\<lparr>write_offset := buffer_length self + 1\<rparr>,
                        h(a := (h a)[nat (write_offset self) := s, nat (buffer_length self) := s']))"
    if "buffer_length self < int (length (h a))"
  proof -
    have "eml_audio_bufferer_add self1 h1 s'
            = Some (0, self1\<lparr>write_offset := write_offset self1 + 1\<rparr>,
                    h1(a := (h1 a)[nat (write_offset self1) := s']))"
      using that assms len1 by (intro bufferer_add_filling) (simp_all add: self1_def)
    moreover have "self1\<lparr>write_offset := write_offset self1 + 1\<rparr>
                     = self\<lparr>write_offset := buffer_length self + 1\<rparr>"
      by (simp add: self1_def)
    moreover have "h1(a := (h1 a)[nat (write_offset self1) := s'])
                     = h(a := (h a)[nat (write_offset self) := s, nat (buffer_length self) := s'])"
      by (simp add: self1_def h1_def)
    ultimately show ?thesis
      by (simp only:)
  qed
  show ?thesis
    using first past more by (auto simp: h1_def self1_def)
qed

theorem bufferer_add_frame_end_witness:
  "write_buffer bufferer_full = Some 2
   \<and> 0 \<le> write_offset bufferer_full
   \<and> write_offset bufferer_full < int (length (heap_full 2))
   \<and> write_offset bufferer_full + 1 = buffer_length bufferer_full
   \<and> read_buffer bufferer_full \<noteq> None
   \<and> int (length (heap_full 2)) = buffer_length bufferer_full
   \<and> eml_audio_bufferer_add bufferer_full heap_full 8
       = Some (- 1, bufferer_full\<lparr>write_offset := 4\<rparr>, heap_full(2 := [5, 6, 7, 8]))
   \<and> eml_audio_bufferer_add (bufferer_full\<lparr>write_offset := 4\<rparr>)
         (heap_full(2 := [5, 6, 7, 8])) 9 = None"
proof -
  have h1: "write_buffer bufferer_full = Some 2"
    and h2: "0 \<le> write_offset bufferer_full"
    and h3: "write_offset bufferer_full < int (length (heap_full 2))"
    and h4: "write_offset bufferer_full + 1 = buffer_length bufferer_full"
    and h5: "read_buffer bufferer_full \<noteq> None"
    and h6: "int (length (heap_full 2)) = buffer_length bufferer_full"
    by (simp_all add: bufferer_full_def heap_full_def)
  have bl: "buffer_length bufferer_full = 4"
    by (simp add: bufferer_full_def)
  have upd: "(heap_full 2)[nat (write_offset bufferer_full) := 8] = [5, 6, 7, 8]"
    by (simp add: bufferer_full_def heap_full_def eval_nat_numeral)
  note inst = bufferer_add_frame_end [of bufferer_full 2 heap_full 8 9, OF h1 h2 h3 h4]
  have "eml_audio_bufferer_add bufferer_full heap_full 8
          = Some (- 1, bufferer_full\<lparr>write_offset := 4\<rparr>, heap_full(2 := [5, 6, 7, 8]))"
    using inst h5 by (simp only: upd bl) simp
  moreover have "eml_audio_bufferer_add (bufferer_full\<lparr>write_offset := 4\<rparr>)
                   (heap_full(2 := [5, 6, 7, 8])) 9 = None"
    using inst h5 h6 by (simp only: upd bl) simp
  ultimately show ?thesis
    using h1 h2 h3 h4 h5 h6 by blast
qed

end
